theory Spec2Isabelle
  imports Main "HOL-Library.Word"
begin

unbundle bit_operations_syntax

section \<open>Data model of emdr-relay-go.go\<close>

text \<open>
  A Go \<open>string\<close> and a \<open>[]byte\<close> are byte sequences: \<open>string\<close> (a list of 8-bit
  \<open>char\<close>s) models both. A \<open>time.Time\<close> is represented by the value of its
  \<open>Unix()\<close> method (whole seconds since the epoch, an \<open>int64\<close>), which is the only
  observation the program makes of a time stamp. Error values are represented by
  their message.
\<close>

type_synonym bytes = string
type_synonym err = string

text \<open>\<open>type CacheValue struct { found bool }\<close>\<close>

datatype CacheValue = CacheValue (found: bool)

text \<open>The anonymous element type of \<open>UploadKeys\<close>: \<open>struct { Name, Key string }\<close>.\<close>

record UploadKey =
  uk_Name :: string
  uk_Key :: string

text \<open>The anonymous element type of \<open>Rowsets[i].Rows\<close> (eleven positional fields).\<close>

record Row =
  Num0 :: int
  Num1 :: int
  Num2 :: int
  Num3 :: int
  Num4 :: int
  Num5 :: int
  Num6 :: bool
  Num7 :: int
  Num8 :: int
  Num9 :: int
  Num10 :: int

text \<open>The anonymous element type of \<open>EMDRMsg.Rowsets\<close>.\<close>

record Rowset =
  GeneratedAt :: int
  RegionID :: int
  TypeID :: int
  Rows :: "Row list"

record Generator =
  gen_Name :: string
  gen_Version :: string

record EMDRMsg =
  ResultType :: string
  Version :: string
  UploadKeys :: "UploadKey list"
  Generator :: Generator
  CurrentTime :: int
  Columns :: "string list"
  Rowsets :: "Rowset list"

record Configuration =
  URI :: string
  Cluster :: string
  Bucket :: string
  RelayList :: "string list"
  CouchbaseCache :: bool

text \<open>
  \<open>EMDRDoc\<close>, built positionally at line 175 as
  \<open>EMDRDoc{element.RegionID, element.TypeID, int32(time.Now().Unix()), m.UploadKeys, m.ResultType}\<close>.
\<close>

record EMDRDoc =
  doc_Region :: int
  doc_ItemID :: int
  doc_InsertTime :: int
  doc_UploadKeys :: "UploadKey list"
  doc_ResultType :: string

section \<open>Fingerprint: \<open>fnv.New32\<close>, \<open>Sum\<close> and \<open>Sprintf("%x")\<close>\<close>

text \<open>
  Lines 143 to 147. \<open>fnv.New32()\<close> is the 32-bit FNV-1 hash of Go's \<open>hash/fnv\<close>:
  the state starts at the offset basis; \<open>Write\<close> multiplies it by the prime
  (wrapping at 32 bits) and then xors the next byte in. \<open>Sum([]byte{})\<close> is the state
  as four bytes, most significant first. \<open>fmt.Sprintf("%x", bs)\<close> on a byte slice
  prints two lower-case hexadecimal digits per byte.
\<close>

definition offset32 :: "32 word" where
  "offset32 = 2166136261"

definition prime32 :: "32 word" where
  "prime32 = 16777619"

fun fnv_Write :: "32 word \<Rightarrow> bytes \<Rightarrow> 32 word" where
  "fnv_Write h [] = h"
| "fnv_Write h (c # cs) = fnv_Write ((h * prime32) XOR of_char c) cs"

definition fnv_Sum :: "32 word \<Rightarrow> 8 word list" where
  "fnv_Sum h = [ucast (drop_bit 24 h), ucast (drop_bit 16 h), ucast (drop_bit 8 h), ucast h]"

definition hex_digit :: "nat \<Rightarrow> char" where
  "hex_digit n = ''0123456789abcdef'' ! (n mod 16)"

definition hex_byte :: "8 word \<Rightarrow> string" where
  "hex_byte b = [hex_digit (unat b div 16), hex_digit (unat b mod 16)]"

definition Sprintf_x :: "8 word list \<Rightarrow> string" where
  "Sprintf_x bs = concat (map hex_byte bs)"

definition checksum :: "bytes \<Rightarrow> 8 word list" where
  "checksum msg = fnv_Sum (fnv_Write offset32 msg)"

definition cache_key :: "bytes \<Rightarrow> string" where
  "cache_key msg = Sprintf_x (checksum msg)"

text \<open>
  Reading a string of hexadecimal digits back as a number, most significant digit
  first; used to state what the key denotes.
\<close>

definition hex_digit_value :: "char \<Rightarrow> nat" where
  "hex_digit_value c =
     (let n = (of_char c :: nat) in if 48 \<le> n \<and> n \<le> 57 then n - 48 else n - 87)"

definition hex_value :: "string \<Rightarrow> nat" where
  "hex_value s = foldl (\<lambda>a c. 16 * a + hex_digit_value c) 0 s"

section \<open>\<open>strconv.Itoa\<close>\<close>

text \<open>Decimal rendering of an integer, with a leading minus sign when negative.\<close>

definition digit_char :: "nat \<Rightarrow> char" where
  "digit_char n = ''0123456789'' ! (n mod 10)"

fun decimal :: "nat \<Rightarrow> string" where
  "decimal n = (if n < 10 then [digit_char n] else decimal (n div 10) @ [digit_char (n mod 10)])"

declare decimal.simps [simp del]

definition Itoa :: "int \<Rightarrow> string" where
  "Itoa i = (if i < 0 then CHR ''-'' # decimal (nat (- i)) else decimal (nat i))"

section \<open>The LRU cache\<close>

text \<open>
  Modelled from the spec: the package \<open>cache\<close> (\<open>NewLRUCache\<close>, \<open>Get\<close>, \<open>Set\<close>)
  that \<open>main\<close> imports is not among the source files. Section 4.1 of the
  specification gives its contract: a recency-ordered collection with at most one entry
  per key; \<open>Get\<close> on a hit promotes the entry to most-recently-used and has no effect
  on a miss; \<open>Set\<close> inserts the entry as most-recently-used (an existing key is
  promoted without growth) and then evicts least-recently-used entries one at a time
  until the size is back within the capacity. The capacity is a byte budget and every
  value reports its footprint through \<open>Size()\<close>, passed here as \<open>sz\<close>.
  The list \<open>items\<close> is ordered from most to least recently used.
\<close>

record 'v LRUCache =
  items :: "(string \<times> 'v) list"
  capacity :: nat

text \<open>Modelled from the spec: \<open>NewLRUCache(capacity)\<close>, the empty cache with a byte budget.\<close>

definition NewLRUCache :: "nat \<Rightarrow> 'v LRUCache" where
  "NewLRUCache cap = \<lparr>items = [], capacity = cap\<rparr>"

text \<open>Modelled from the spec: the size of the cache, the sum of the sizes of its values.\<close>

definition cache_bytes :: "('v \<Rightarrow> nat) \<Rightarrow> (string \<times> 'v) list \<Rightarrow> nat" where
  "cache_bytes sz xs = sum_list (map (\<lambda>e. sz (snd e)) xs)"

text \<open>
  Modelled from the spec: eviction, one least-recently-used entry at a time, until the
  size is within the capacity.
\<close>

function checkCapacity :: "('v \<Rightarrow> nat) \<Rightarrow> nat \<Rightarrow> (string \<times> 'v) list \<Rightarrow> (string \<times> 'v) list" where
  "checkCapacity sz cap xs =
     (if cap < cache_bytes sz xs \<and> xs \<noteq> [] then checkCapacity sz cap (butlast xs) else xs)"
  by pat_completeness auto
termination
  by (relation "measure (\<lambda>(sz, cap, xs). length xs)") auto

declare checkCapacity.simps [simp del]

text \<open>
  Modelled from the spec: \<open>Get\<close>. A hit returns the value and promotes the entry to
  most-recently-used; a miss changes nothing.
\<close>

definition cache_Get :: "'v LRUCache \<Rightarrow> string \<Rightarrow> 'v option \<times> 'v LRUCache" where
  "cache_Get c k =
     (case map_of (items c) k of
        None \<Rightarrow> (None, c)
      | Some v \<Rightarrow> (Some v, c\<lparr>items := (k, v) # filter (\<lambda>e. fst e \<noteq> k) (items c)\<rparr>))"

text \<open>
  Modelled from the spec: \<open>Set\<close>. The entry becomes the most recently used one (an
  entry already held under the key is replaced), then the capacity is enforced.
\<close>

definition cache_Set :: "('v \<Rightarrow> nat) \<Rightarrow> 'v LRUCache \<Rightarrow> string \<Rightarrow> 'v \<Rightarrow> 'v LRUCache" where
  "cache_Set sz c k v =
     c\<lparr>items := checkCapacity sz (capacity c) ((k, v) # filter (\<lambda>e. fst e \<noteq> k) (items c))\<rparr>"

text \<open>Modelled from the spec: the fingerprints the cache holds.\<close>

definition cache_keys :: "'v LRUCache \<Rightarrow> string set" where
  "cache_keys c = fst ` set (items c)"

section \<open>The collaborators of \<open>main\<close>\<close>

text \<open>
  The library calls whose results \<open>main\<close> consumes are parameters of the model:
  \<open>zlib.NewReader\<close> (an error, or a reader over the compressed bytes),
  \<open>ioutil.ReadAll\<close> (the bytes read so far and possibly an error),
  \<open>json.Unmarshal\<close> (the message structure it filled in and possibly an error) and
  \<open>time.Now().Unix()\<close> (the reading of the \<open>n\<close>-th call of the run).
  \<open>cache_value_size\<close> is \<open>unsafe.Sizeof(CacheValue{})\<close>, a constant of the
  compiler's memory layout.
\<close>

record env =
  zlib_NewReader :: "bytes \<Rightarrow> err + bytes"
  ioutil_ReadAll :: "bytes \<Rightarrow> bytes \<times> err option"
  json_Unmarshal :: "bytes \<Rightarrow> EMDRMsg \<times> err option"
  time_Now_Unix :: "nat \<Rightarrow> int"
  cache_value_size :: nat

text \<open>Line 80: \<open>const cache_size_limit = cache_value_size * 1000\<close>.\<close>

definition cache_size_limit :: "env \<Rightarrow> nat" where
  "cache_size_limit ev = cache_value_size ev * 1000"

text \<open>Lines 83 to 85: \<open>func (self *CacheValue) Size() int\<close>.\<close>

definition Size :: "env \<Rightarrow> CacheValue \<Rightarrow> nat" where
  "Size ev self = cache_value_size ev"

text \<open>Lines 190 to 200. The named result \<open>decoded\<close> starts as the nil slice.\<close>

definition ZlibDecode :: "env \<Rightarrow> bytes \<Rightarrow> bytes \<times> err option" where
  "ZlibDecode ev encoded =
     (case zlib_NewReader ev encoded of
        Inl e \<Rightarrow> ([], Some e)
      | Inr pipeline \<Rightarrow> ioutil_ReadAll ev pipeline)"

section \<open>The relay loop of \<open>main\<close>\<close>

text \<open>
  The effects of the loop are recorded in program order: console output, the calls on
  the cache, the message published on the outbound socket, the upsert sent to the
  bucket, and \<open>log.Fatal\<close> (which prints its argument and exits with status 1).
\<close>

datatype event =
    is_Println: Println string
  | is_CacheGet: CacheGet string
  | is_CacheSet: CacheSet string
  | is_Send: Send bytes
  | is_BucketSet: BucketSet string EMDRDoc
  | is_LogFatal: LogFatal err

text \<open>
  \<open>clock\<close> counts the calls of \<open>time.Now()\<close> made so far; \<open>bucket\<close> is the
  content of the document store when every upsert succeeds; \<open>exited\<close> is the exit
  status once the process has terminated.
\<close>

record relay_state =
  cache :: "CacheValue LRUCache"
  clock :: nat
  trace :: "event list"
  bucket :: "string \<rightharpoonup> EMDRDoc"
  exited :: "int option"

definition emit :: "event \<Rightarrow> relay_state \<Rightarrow> relay_state" where
  "emit e s = s\<lparr>trace := trace s @ [e]\<rparr>"

text \<open>Go's conversion \<open>int32(x)\<close> of an \<open>int64\<close> keeps the low 32 bits.\<close>

definition int32 :: "int \<Rightarrow> 32 word" where
  "int32 x = word_of_int x"

text \<open>
  Line 174: \<open>element.GeneratedAt.Unix() >= int32(time.Now().Unix())-3600\<close>. The
  right operand is computed in \<open>int32\<close>, as written: the clock is converted and the
  subtraction wraps at 32 bits. The left operand is an \<open>int64\<close>, so the comparison
  mixes two integer types, which Go's type checker does not accept as it stands;
  \<open>in_window\<close> compares the two values as integers (the right operand widened).
\<close>

definition in_window :: "int \<Rightarrow> int \<Rightarrow> bool" where
  "in_window now generatedAt \<longleftrightarrow> sint (int32 now - 3600) \<le> generatedAt"

text \<open>
  The other reading of line 174 that keeps the conversion the source writes: the left
  operand is converted to \<open>int32\<close> as well and the comparison is the signed one on
  \<open>int32\<close>. It is stated next to \<open>in_window\<close> so that results about the window can
  be checked under both readings.
\<close>

definition in_window_int32 :: "int \<Rightarrow> int \<Rightarrow> bool" where
  "in_window_int32 now generatedAt \<longleftrightarrow> sint (int32 now - 3600) \<le> sint (int32 generatedAt)"

text \<open>Lines 176 to 183: the key written into the buffer.\<close>

definition doc_key :: "int \<Rightarrow> int \<Rightarrow> string \<Rightarrow> string" where
  "doc_key regionID typeID resultType =
     Itoa regionID @ ''-'' @ Itoa typeID @ ''-'' @ resultType"

text \<open>Line 175: the document.\<close>

definition mk_doc :: "Rowset \<Rightarrow> EMDRMsg \<Rightarrow> int \<Rightarrow> EMDRDoc" where
  "mk_doc element m now =
     \<lparr>doc_Region = RegionID element, doc_ItemID = TypeID element,
      doc_InsertTime = sint (int32 now), doc_UploadKeys = UploadKeys m,
      doc_ResultType = ResultType m\<rparr>"

text \<open>Line 184: \<open>b.Set(key, val)\<close>; its result is discarded.\<close>

definition b_Set :: "string \<Rightarrow> EMDRDoc \<Rightarrow> relay_state \<Rightarrow> relay_state" where
  "b_Set key val s = emit (BucketSet key val) (s\<lparr>bucket := (bucket s)(key \<mapsto> val)\<rparr>)"

definition tick :: "relay_state \<Rightarrow> relay_state" where
  "tick s = s\<lparr>clock := Suc (clock s)\<rparr>"

text \<open>Lines 173 to 186: \<open>for _, element := range m.Rowsets\<close>.\<close>

fun range_Rowsets :: "env \<Rightarrow> EMDRMsg \<Rightarrow> Rowset list \<Rightarrow> relay_state \<Rightarrow> relay_state" where
  "range_Rowsets ev m [] s = s"
| "range_Rowsets ev m (element # rest) s =
     (if in_window (time_Now_Unix ev (clock s)) (GeneratedAt element)
      then range_Rowsets ev m rest
             (b_Set (doc_key (RegionID element) (TypeID element) (ResultType m))
                    (mk_doc element m (time_Now_Unix ev (Suc (clock s))))
                    (tick (tick s)))
      else range_Rowsets ev m rest (tick s))"

text \<open>Lines 167 to 186: the part of an iteration after the forward.\<close>

definition persist :: "env \<Rightarrow> bytes \<Rightarrow> relay_state \<Rightarrow> relay_state" where
  "persist ev msg s =
     (case ZlibDecode ev msg of
        (decoded, Some e) \<Rightarrow> (emit (LogFatal e) s)\<lparr>exited := Some 1\<rparr>
      | (decoded, None) \<Rightarrow>
          (let m = fst (json_Unmarshal ev decoded) in range_Rowsets ev m (Rowsets m) s))"

text \<open>Lines 138 to 141: the receive and its error report.\<close>

definition report_recv :: "err option \<Rightarrow> relay_state \<Rightarrow> relay_state" where
  "report_recv zmq_err s =
     (case zmq_err of None \<Rightarrow> s | Some e \<Rightarrow> emit (Println (''RECV ERROR: '' @ e)) s)"

text \<open>
  Lines 138 to 187: one iteration of the loop, on the result \<open>(msg, zmq_err)\<close> of
  \<open>receiver.Recv(0)\<close>.
\<close>

definition relay_iter :: "Configuration \<Rightarrow> env \<Rightarrow> relay_state \<Rightarrow> bytes \<times> err option \<Rightarrow> relay_state" where
  "relay_iter cfg ev s0 r =
     (case r of (msg, zmq_err) \<Rightarrow>
        let s1 = report_recv zmq_err s0;
            key = cache_key msg;
            (cache_item, c1) = cache_Get (cache s1) key;
            s2 = emit (CacheGet key) (s1\<lparr>cache := c1\<rparr>)
        in if cache_item \<noteq> None then s2
           else
             let s3 = emit (CacheSet key)
                        (s2\<lparr>cache := cache_Set (Size ev) (cache s2) key (CacheValue True)\<rparr>);
                 s4 = emit (Send msg) s3
             in if CouchbaseCache cfg = False then s4 else persist ev msg s4)"

text \<open>
  Line 137: \<open>for { ... }\<close>, run on the messages the inbound socket delivers. The
  loop has no exit of its own; the process ends when \<open>log.Fatal\<close> is reached.
  (\<open>periodic_exiter\<close>, lines 87 to 100, runs concurrently and ends the process
  every 12 hours; it shares no state with the loop and is not part of this model.)
\<close>

fun relay_loop :: "Configuration \<Rightarrow> env \<Rightarrow> relay_state \<Rightarrow> (bytes \<times> err option) list \<Rightarrow> relay_state" where
  "relay_loop cfg ev s [] = s"
| "relay_loop cfg ev s (r # rs) =
     (if exited s \<noteq> None then s else relay_loop cfg ev (relay_iter cfg ev s r) rs)"

text \<open>The state in which the loop is entered (line 105 builds the cache).\<close>

definition loop_entry :: "env \<Rightarrow> (string \<rightharpoonup> EMDRDoc) \<Rightarrow> relay_state" where
  "loop_entry ev b =
     \<lparr>cache = NewLRUCache (cache_size_limit ev), clock = 0, trace = [], bucket = b,
      exited = None\<rparr>"

text \<open>The effects of a run that were added after a given earlier state.\<close>

definition events_since :: "relay_state \<Rightarrow> relay_state \<Rightarrow> event list" where
  "events_since s s' = drop (length (trace s)) (trace s')"

text \<open>The console output of lines 139 to 141.\<close>

definition recv_log :: "err option \<Rightarrow> event list" where
  "recv_log zmq_err = (case zmq_err of None \<Rightarrow> [] | Some e \<Rightarrow> [Println (''RECV ERROR: '' @ e)])"

text \<open>The messages published on the outbound socket, in order.\<close>

definition forwarded :: "event list \<Rightarrow> bytes list" where
  "forwarded es = concat (map (\<lambda>e. case e of Send m \<Rightarrow> [m] | _ \<Rightarrow> []) es)"

section \<open>Sample collaborators and inputs\<close>

text \<open>
  Concrete collaborators on which the model is run: a decompressor that fails on the
  empty input and otherwise hands its input through, a decoder that always yields
  \<open>sample_msg\<close>, and a clock that starts at 1700000000 and advances by one second
  per reading.
\<close>

definition sample_rowset :: Rowset where
  "sample_rowset = \<lparr>GeneratedAt = 1700000000 - 10, RegionID = 10000210, TypeID = 34, Rows = []\<rparr>"

definition sample_msg :: EMDRMsg where
  "sample_msg =
     \<lparr>ResultType = ''history'', Version = ''0.1'', UploadKeys = [],
      Generator = \<lparr>gen_Name = ''g'', gen_Version = ''1''\<rparr>, CurrentTime = 1700000000,
      Columns = [], Rowsets = [sample_rowset]\<rparr>"

definition sample_env :: env where
  "sample_env =
     \<lparr>zlib_NewReader = (\<lambda>b. if b = [] then Inl ''unexpected EOF'' else Inr b),
      ioutil_ReadAll = (\<lambda>p. (p, None)),
      json_Unmarshal = (\<lambda>d. (sample_msg, None)),
      time_Now_Unix = (\<lambda>n. 1700000000 + int n),
      cache_value_size = 1\<rparr>"

definition cfg_on :: Configuration where
  "cfg_on = \<lparr>URI = [], Cluster = [], Bucket = [], RelayList = [], CouchbaseCache = True\<rparr>"

definition cfg_off :: Configuration where
  "cfg_off = \<lparr>URI = [], Cluster = [], Bucket = [], RelayList = [], CouchbaseCache = False\<rparr>"

section \<open>Frame and trace lemmas\<close>

lemma events_since_append [simp]: "trace s' = trace s @ es \<Longrightarrow> events_since s s' = es"
  by (simp add: events_since_def)

lemma range_Rowsets_append:
  "range_Rowsets ev m (xs @ ys) s = range_Rowsets ev m ys (range_Rowsets ev m xs s)"
  by (induction xs arbitrary: s) auto

lemma range_Rowsets_cache [simp]: "cache (range_Rowsets ev m rs s) = cache s"
  by (induction rs arbitrary: s) (auto simp: b_Set_def tick_def emit_def)

lemma range_Rowsets_exited [simp]: "exited (range_Rowsets ev m rs s) = exited s"
  by (induction rs arbitrary: s) (auto simp: b_Set_def tick_def emit_def)

lemma range_Rowsets_trace:
  "\<exists>es. trace (range_Rowsets ev m rs s) = trace s @ es \<and> (\<forall>e \<in> set es. is_BucketSet e)"
proof (induction rs arbitrary: s)
  case Nil
  then show ?case by simp
next
  case (Cons el rs)
  show ?case
  proof (cases "in_window (time_Now_Unix ev (clock s)) (GeneratedAt el)")
    case True
    let ?s1 = "b_Set (doc_key (RegionID el) (TypeID el) (ResultType m))
                    (mk_doc el m (time_Now_Unix ev (Suc (clock s)))) (tick (tick s))"
    obtain es where es: "trace (range_Rowsets ev m rs ?s1) = trace ?s1 @ es"
      "\<forall>e \<in> set es. is_BucketSet e"
      using Cons.IH by blast
    have "trace ?s1 = trace s @ [BucketSet (doc_key (RegionID el) (TypeID el) (ResultType m))
                    (mk_doc el m (time_Now_Unix ev (Suc (clock s))))]"
      by (simp add: b_Set_def tick_def emit_def)
    with es True show ?thesis by simp
  next
    case False
    obtain es where es: "trace (range_Rowsets ev m rs (tick s)) = trace (tick s) @ es"
      "\<forall>e \<in> set es. is_BucketSet e"
      using Cons.IH by blast
    with False show ?thesis by (simp add: tick_def)
  qed
qed

lemma persist_cache [simp]: "cache (persist ev msg s) = cache s"
  by (simp add: persist_def emit_def Let_def split: prod.splits option.splits)

lemma persist_trace:
  "\<exists>es. trace (persist ev msg s) = trace s @ es \<and> (\<forall>e \<in> set es. is_BucketSet e \<or> is_LogFatal e)"
proof (cases "ZlibDecode ev msg")
  case (Pair decoded r)
  show ?thesis
  proof (cases r)
    case None
    with Pair range_Rowsets_trace show ?thesis
      by (fastforce simp: persist_def Let_def)
  next
    case (Some e)
    with Pair show ?thesis by (simp add: persist_def emit_def)
  qed
qed

lemma cache_Get_hit: "fst (cache_Get c k) = None \<longleftrightarrow> k \<notin> cache_keys c"
proof -
  have "fst (cache_Get c k) = None \<longleftrightarrow> map_of (items c) k = None"
    by (simp add: cache_Get_def split: option.splits)
  then show ?thesis
    by (simp add: cache_keys_def map_of_eq_None_iff)
qed

lemma cache_Get_miss: "k \<notin> cache_keys c \<Longrightarrow> cache_Get c k = (None, c)"
  by (simp add: cache_Get_def cache_keys_def map_of_eq_None_iff [symmetric])

lemma report_recv_trace: "trace (report_recv z s) = trace s @ recv_log z"
  by (simp add: report_recv_def recv_log_def emit_def split: option.splits)

lemma report_recv_frame [simp]:
  "cache (report_recv z s) = cache s" "bucket (report_recv z s) = bucket s"
  "exited (report_recv z s) = exited s" "clock (report_recv z s) = clock s"
  by (simp_all add: report_recv_def emit_def split: option.splits)

lemma relay_iter_hit:
  assumes "cache_key msg \<in> cache_keys (cache s)"
  shows "relay_iter cfg ev s (msg, z) =
           emit (CacheGet (cache_key msg))
             ((report_recv z s)\<lparr>cache := snd (cache_Get (cache s) (cache_key msg))\<rparr>)"
proof -
  have "fst (cache_Get (cache s) (cache_key msg)) \<noteq> None"
    using assms cache_Get_hit by blast
  then obtain v c1 where g: "cache_Get (cache s) (cache_key msg) = (Some v, c1)"
    by (cases "cache_Get (cache s) (cache_key msg)") auto
  show ?thesis
    by (simp add: relay_iter_def Let_def g)
qed

lemma relay_iter_miss:
  assumes "cache_key msg \<notin> cache_keys (cache s)"
  shows "relay_iter cfg ev s (msg, z) =
           (let s4 = emit (Send msg) (emit (CacheSet (cache_key msg))
                      (emit (CacheGet (cache_key msg)) (report_recv z s)
                         \<lparr>cache := cache_Set (Size ev) (cache s) (cache_key msg) (CacheValue True)\<rparr>))
            in if CouchbaseCache cfg then persist ev msg s4 else s4)"
  using assms by (simp add: relay_iter_def Let_def cache_Get_miss emit_def)

section \<open>The cache stays within its byte budget\<close>

lemma checkCapacity_fits: "cache_bytes sz xs \<le> cap \<Longrightarrow> checkCapacity sz cap xs = xs"
  by (simp add: checkCapacity.simps)

lemma checkCapacity_bound: "cache_bytes sz (checkCapacity sz cap xs) \<le> cap"
proof (induction sz cap xs rule: checkCapacity.induct)
  case (1 sz cap xs)
  show ?case
  proof (cases "cap < cache_bytes sz xs \<and> xs \<noteq> []")
    case True
    then show ?thesis using "1.IH" by (simp add: checkCapacity.simps [of sz cap xs])
  next
    case False
    then have "cache_bytes sz xs \<le> cap"
      by (cases xs) (auto simp: cache_bytes_def)
    with False show ?thesis by (simp add: checkCapacity.simps [of sz cap xs])
  qed
qed

lemma checkCapacity_subset: "set (checkCapacity sz cap xs) \<subseteq> set xs"
proof (induction sz cap xs rule: checkCapacity.induct)
  case (1 sz cap xs)
  show ?case
  proof (cases "cap < cache_bytes sz xs \<and> xs \<noteq> []")
    case True
    then have "set (checkCapacity sz cap xs) \<subseteq> set (butlast xs)"
      using "1.IH" by (simp add: checkCapacity.simps [of sz cap xs])
    then show ?thesis using in_set_butlastD by fastforce
  next
    case False
    then have "checkCapacity sz cap xs = xs"
      by (subst checkCapacity.simps) auto
    then show ?thesis by simp
  qed
qed

lemma checkCapacity_keeps_head:
  "sz v \<le> cap \<Longrightarrow> (k, v) \<in> set (checkCapacity sz cap ((k, v) # xs))"
proof (induction xs rule: rev_induct)
  case Nil
  then show ?case by (simp add: checkCapacity_fits cache_bytes_def)
next
  case (snoc x xs)
  show ?case
  proof (cases "cap < cache_bytes sz ((k, v) # xs @ [x])")
    case True
    then have "checkCapacity sz cap ((k, v) # xs @ [x]) = checkCapacity sz cap ((k, v) # xs)"
      by (simp add: checkCapacity.simps [of sz cap "(k, v) # xs @ [x]"] butlast_append)
    with snoc show ?thesis by simp
  next
    case False
    then show ?thesis by (simp add: checkCapacity_fits)
  qed
qed

lemma cache_bytes_const: "(\<forall>e \<in> set xs. sz (snd e) = n) \<Longrightarrow> cache_bytes sz xs = length xs * n"
  by (induction xs) (auto simp: cache_bytes_def)

lemma cache_bytes_Size: "cache_bytes (Size ev) xs = length xs * cache_value_size ev"
  by (rule cache_bytes_const) (simp add: Size_def)

lemma cache_Get_capacity [simp]: "capacity (snd (cache_Get c k)) = capacity c"
  by (simp add: cache_Get_def split: option.splits)

lemma cache_Set_capacity [simp]: "capacity (cache_Set sz c k v) = capacity c"
  by (simp add: cache_Set_def)

lemma cache_Get_length: "length (items (snd (cache_Get c k))) \<le> length (items c)"
proof (cases "map_of (items c) k")
  case None
  then show ?thesis by (simp add: cache_Get_def)
next
  case (Some v)
  then have "(k, v) \<in> set (items c)" by (rule map_of_SomeD)
  then have "length (filter (\<lambda>e. fst e \<noteq> k) (items c)) < length (items c)"
    by (intro length_filter_less [of "(k, v)"]) auto
  with Some show ?thesis by (simp add: cache_Get_def)
qed

lemma cache_Set_bound:
  "cache_bytes sz (items (cache_Set sz c k v)) \<le> capacity c"
  by (simp add: cache_Set_def checkCapacity_bound)

lemma cache_Set_present:
  "sz v \<le> capacity c \<Longrightarrow> k \<in> cache_keys (cache_Set sz c k v)"
proof -
  assume "sz v \<le> capacity c"
  then have "(k, v) \<in> set (items (cache_Set sz c k v))"
    by (simp add: cache_Set_def checkCapacity_keeps_head)
  then show ?thesis by (force simp: cache_keys_def)
qed

lemma cache_Get_keys [simp]: "cache_keys (snd (cache_Get c k)) = cache_keys c"
proof (cases "map_of (items c) k")
  case None
  then show ?thesis by (simp add: cache_Get_def)
next
  case (Some v)
  then have "(k, v) \<in> set (items c)" by (rule map_of_SomeD)
  then have "k \<in> fst ` set (items c)" by force
  with Some show ?thesis by (auto simp: cache_Get_def cache_keys_def)
qed

section \<open>One iteration and the loop\<close>

lemma relay_iter_hit_trace:
  assumes "cache_key msg \<in> cache_keys (cache s)"
  shows "trace (relay_iter cfg ev s (msg, z)) = trace s @ recv_log z @ [CacheGet (cache_key msg)]"
    and "bucket (relay_iter cfg ev s (msg, z)) = bucket s"
    and "exited (relay_iter cfg ev s (msg, z)) = exited s"
    and "clock (relay_iter cfg ev s (msg, z)) = clock s"
    and "cache (relay_iter cfg ev s (msg, z)) = snd (cache_Get (cache s) (cache_key msg))"
  by (simp_all add: relay_iter_hit [OF assms] emit_def report_recv_trace)

lemma relay_iter_miss_cache:
  assumes "cache_key msg \<notin> cache_keys (cache s)"
  shows "cache (relay_iter cfg ev s (msg, z)) =
           cache_Set (Size ev) (cache s) (cache_key msg) (CacheValue True)"
  by (simp add: relay_iter_miss [OF assms] emit_def Let_def)

lemma relay_iter_miss_trace:
  assumes "cache_key msg \<notin> cache_keys (cache s)"
  shows "\<exists>post. trace (relay_iter cfg ev s (msg, z)) =
            trace s @ recv_log z @ [CacheGet (cache_key msg), CacheSet (cache_key msg), Send msg] @ post
          \<and> (\<forall>e \<in> set post. is_BucketSet e \<or> is_LogFatal e)
          \<and> (\<not> CouchbaseCache cfg \<longrightarrow> post = [])"
proof (cases "CouchbaseCache cfg")
  case False
  then show ?thesis
    by (simp add: relay_iter_miss [OF assms] emit_def report_recv_trace)
next
  case True
  let ?s4 = "emit (Send msg) (emit (CacheSet (cache_key msg))
                      (emit (CacheGet (cache_key msg)) (report_recv z s)
                         \<lparr>cache := cache_Set (Size ev) (cache s) (cache_key msg) (CacheValue True)\<rparr>))"
  obtain post where post: "trace (persist ev msg ?s4) = trace ?s4 @ post"
      "\<forall>e \<in> set post. is_BucketSet e \<or> is_LogFatal e"
    using persist_trace by blast
  have "trace ?s4 = trace s @ recv_log z @ [CacheGet (cache_key msg), CacheSet (cache_key msg), Send msg]"
    by (simp add: emit_def report_recv_trace)
  with post True show ?thesis
    by (simp add: relay_iter_miss [OF assms])
qed

lemma relay_iter_trace:
  "\<exists>es. trace (relay_iter cfg ev s r) = trace s @ es"
proof (cases r)
  case (Pair msg z)
  show ?thesis
  proof (cases "cache_key msg \<in> cache_keys (cache s)")
    case True
    then show ?thesis using Pair relay_iter_hit_trace(1) by blast
  next
    case False
    then show ?thesis using Pair relay_iter_miss_trace [of msg s cfg ev z] by auto
  qed
qed

lemma relay_loop_exited: "exited s \<noteq> None \<Longrightarrow> relay_loop cfg ev s rs = s"
  by (cases rs) auto

lemma relay_loop_append:
  "relay_loop cfg ev s (xs @ ys) = relay_loop cfg ev (relay_loop cfg ev s xs) ys"
proof (induction xs arbitrary: s)
  case Nil
  then show ?case by simp
next
  case (Cons x xs)
  then show ?case by (simp add: relay_loop_exited)
qed

lemma relay_loop_snoc:
  "exited (relay_loop cfg ev s xs) = None \<Longrightarrow>
   relay_loop cfg ev s (xs @ [r]) = relay_iter cfg ev (relay_loop cfg ev s xs) r"
  by (simp add: relay_loop_append)

lemma relay_loop_trace: "\<exists>es. trace (relay_loop cfg ev s rs) = trace s @ es"
proof (induction rs arbitrary: s)
  case Nil
  then show ?case by simp
next
  case (Cons r rs)
  show ?case
  proof (cases "exited s")
    case None
    obtain es1 where "trace (relay_iter cfg ev s r) = trace s @ es1"
      using relay_iter_trace by blast
    moreover obtain es2 where
      "trace (relay_loop cfg ev (relay_iter cfg ev s r) rs) = trace (relay_iter cfg ev s r) @ es2"
      using Cons.IH by blast
    ultimately show ?thesis using None by simp
  next
    case (Some a)
    then show ?thesis by simp
  qed
qed

section \<open>Invariants of the loop\<close>

lemma relay_iter_capacity [simp]: "capacity (cache (relay_iter cfg ev s r)) = capacity (cache s)"
proof (cases r)
  case (Pair msg z)
  show ?thesis
    by (cases "cache_key msg \<in> cache_keys (cache s)")
       (simp_all add: Pair relay_iter_hit_trace(5) relay_iter_miss_cache)
qed

lemma relay_loop_capacity [simp]: "capacity (cache (relay_loop cfg ev s rs)) = capacity (cache s)"
  by (induction rs arbitrary: s) auto

lemma relay_iter_bound:
  assumes "cache_bytes (Size ev) (items (cache s)) \<le> capacity (cache s)"
  shows "cache_bytes (Size ev) (items (cache (relay_iter cfg ev s r))) \<le> capacity (cache s)"
proof (cases r)
  case (Pair msg z)
  show ?thesis
  proof (cases "cache_key msg \<in> cache_keys (cache s)")
    case True
    have "length (items (snd (cache_Get (cache s) (cache_key msg)))) * cache_value_size ev
            \<le> length (items (cache s)) * cache_value_size ev"
      by (rule mult_le_mono1) (rule cache_Get_length)
    also have "\<dots> \<le> capacity (cache s)"
      using assms by (simp add: cache_bytes_Size)
    finally show ?thesis
      by (simp only: Pair relay_iter_hit_trace(5) [OF True] cache_bytes_Size)
  next
    case False
    then show ?thesis
      by (simp add: Pair relay_iter_miss_cache cache_Set_bound)
  qed
qed

lemma relay_loop_bound:
  assumes "cache_bytes (Size ev) (items (cache s)) \<le> capacity (cache s)"
  shows "cache_bytes (Size ev) (items (cache (relay_loop cfg ev s rs))) \<le> capacity (cache s)"
  using assms
proof (induction rs arbitrary: s)
  case Nil
  then show ?case by simp
next
  case (Cons r rs)
  show ?case
  proof (cases "exited s")
    case None
    have "cache_bytes (Size ev) (items (cache (relay_iter cfg ev s r))) \<le> capacity (cache (relay_iter cfg ev s r))"
      using relay_iter_bound [OF Cons.prems] by simp
    from Cons.IH [OF this] None show ?thesis by simp
  next
    case (Some a)
    with Cons.prems show ?thesis by simp
  qed
qed

lemma loop_entry_simps [simp]:
  "capacity (cache (loop_entry ev b)) = cache_size_limit ev"
  "items (cache (loop_entry ev b)) = []"
  "trace (loop_entry ev b) = []"
  "bucket (loop_entry ev b) = b"
  "exited (loop_entry ev b) = None"
  "clock (loop_entry ev b) = 0"
  by (simp_all add: loop_entry_def NewLRUCache_def)

lemma forwarded_append [simp]: "forwarded (xs @ ys) = forwarded xs @ forwarded ys"
  by (simp add: forwarded_def)

lemma forwarded_simps [simp]:
  "forwarded [] = []"
  "forwarded (Send m # es) = m # forwarded es"
  "forwarded (Println x # es) = forwarded es"
  "forwarded (CacheGet k # es) = forwarded es"
  "forwarded (CacheSet k # es) = forwarded es"
  "forwarded (BucketSet k d # es) = forwarded es"
  "forwarded (LogFatal x # es) = forwarded es"
  by (simp_all add: forwarded_def)

lemma forwarded_recv_log [simp]: "forwarded (recv_log z) = []"
  by (simp add: recv_log_def split: option.splits)

lemma forwarded_none: "(\<forall>e \<in> set es. \<not> is_Send e) \<Longrightarrow> forwarded es = []"
  by (induction es) (auto simp: forwarded_def split: event.splits)

lemma cache_key_a: "cache_key ''a'' = ''050c5d7e''"
  by (simp add: cache_key_def checksum_def fnv_Sum_def Sprintf_x_def hex_byte_def hex_digit_def offset32_def prime32_def)

section \<open>Forward or drop\<close>

lemma cache_key_empty: "cache_key [] = ''811c9dc5''"
  by (simp add: cache_key_def checksum_def fnv_Sum_def Sprintf_x_def hex_byte_def hex_digit_def
        offset32_def)

lemma entry_fits: "Size ev v \<le> cache_size_limit ev"
  by (simp add: Size_def cache_size_limit_def)

lemma relay_iter_novel:
  assumes "cache_key msg \<notin> cache_keys (cache s)"
  shows "forwarded (events_since s (relay_iter cfg ev s (msg, z))) = [msg]"
proof -
  obtain post where post:
      "trace (relay_iter cfg ev s (msg, z)) =
         trace s @ recv_log z @ [CacheGet (cache_key msg), CacheSet (cache_key msg), Send msg] @ post"
      "\<forall>e \<in> set post. is_BucketSet e \<or> is_LogFatal e"
    using relay_iter_miss_trace [OF assms] by blast
  have "forwarded post = []"
    using post(2) by (intro forwarded_none) auto
  then show ?thesis
    using post(1) by simp
qed

text \<open>
  C1. A message that arrives while the process runs and whose fingerprint is not in the
  cache is forwarded (once), and its fingerprint is in the cache afterwards; a message
  whose fingerprint is in the cache is dropped: the iteration only reports a receive
  error, if any, and performs the lookup, so nothing is forwarded, nothing is written
  to the bucket, and the fingerprint stays in the cache.
\<close>

theorem first_forwarded_duplicate_dropped:
  assumes "exited (relay_loop cfg ev (loop_entry ev b) pre) = None"
  shows "(let s = relay_loop cfg ev (loop_entry ev b) pre;
              s' = relay_loop cfg ev (loop_entry ev b) (pre @ [(msg, z)])
          in (cache_key msg \<notin> cache_keys (cache s) \<longrightarrow>
                forwarded (events_since s s') = [msg] \<and> cache_key msg \<in> cache_keys (cache s'))
           \<and> (cache_key msg \<in> cache_keys (cache s) \<longrightarrow>
                events_since s s' = recv_log z @ [CacheGet (cache_key msg)] \<and>
                forwarded (events_since s s') = [] \<and> bucket s' = bucket s \<and>
                exited s' = None \<and> cache_key msg \<in> cache_keys (cache s')))"
proof -
  let ?s = "relay_loop cfg ev (loop_entry ev b) pre"
  let ?s' = "relay_iter cfg ev ?s (msg, z)"
  have step: "relay_loop cfg ev (loop_entry ev b) (pre @ [(msg, z)]) = ?s'"
    using assms by (rule relay_loop_snoc)
  have novel: "forwarded (events_since ?s ?s') = [msg] \<and> cache_key msg \<in> cache_keys (cache ?s')"
    if miss: "cache_key msg \<notin> cache_keys (cache ?s)"
  proof -
    have "Size ev (CacheValue True) \<le> capacity (cache ?s)"
      by (simp add: entry_fits)
    then have "cache_key msg \<in> cache_keys (cache ?s')"
      by (simp add: relay_iter_miss_cache [OF miss] cache_Set_present)
    with relay_iter_novel [OF miss] show ?thesis by simp
  qed
  have dup: "events_since ?s ?s' = recv_log z @ [CacheGet (cache_key msg)] \<and>
             forwarded (events_since ?s ?s') = [] \<and> bucket ?s' = bucket ?s \<and>
             exited ?s' = None \<and> cache_key msg \<in> cache_keys (cache ?s')"
    if hit: "cache_key msg \<in> cache_keys (cache ?s)"
    using assms hit by (simp add: relay_iter_hit_trace [OF hit])
  show ?thesis
    unfolding Let_def step using novel dup by blast
qed

lemma run_a:
  "relay_loop cfg_off sample_env (loop_entry sample_env Map.empty) [(''a'', None)] =
     \<lparr>cache = \<lparr>items = [(''050c5d7e'', CacheValue True)], capacity = 1000\<rparr>, clock = 0,
      trace = [CacheGet ''050c5d7e'', CacheSet ''050c5d7e'', Send ''a''],
      bucket = Map.empty, exited = None\<rparr>"
  by (simp add: relay_iter_miss cache_keys_def loop_entry_def NewLRUCache_def cfg_off_def
        emit_def report_recv_def cache_key_a cache_Set_def checkCapacity_fits
        cache_bytes_def Size_def sample_env_def cache_size_limit_def)

theorem first_forwarded_duplicate_dropped_witness:
  "exited (relay_loop cfg_off sample_env (loop_entry sample_env Map.empty) []) = None \<and>
   cache_key ''a'' \<notin> cache_keys (cache (relay_loop cfg_off sample_env (loop_entry sample_env Map.empty) [])) \<and>
   forwarded (events_since (relay_loop cfg_off sample_env (loop_entry sample_env Map.empty) [])
       (relay_loop cfg_off sample_env (loop_entry sample_env Map.empty) ([] @ [(''a'', None)]))) = [''a''] \<and>
   exited (relay_loop cfg_off sample_env (loop_entry sample_env Map.empty) [(''a'', None)]) = None \<and>
   cache_key ''a'' \<in> cache_keys (cache (relay_loop cfg_off sample_env (loop_entry sample_env Map.empty) [(''a'', None)])) \<and>
   forwarded (events_since (relay_loop cfg_off sample_env (loop_entry sample_env Map.empty) [(''a'', None)])
       (relay_loop cfg_off sample_env (loop_entry sample_env Map.empty) ([(''a'', None)] @ [(''a'', None)]))) = []"
proof -
  have h1: "exited (relay_loop cfg_off sample_env (loop_entry sample_env Map.empty) []) = None"
    by simp
  have m1: "cache_key ''a'' \<notin> cache_keys (cache (relay_loop cfg_off sample_env (loop_entry sample_env Map.empty) []))"
    by (simp add: cache_keys_def)
  have h2: "exited (relay_loop cfg_off sample_env (loop_entry sample_env Map.empty) [(''a'', None)]) = None"
    by (simp only: run_a relay_state.simps)
  have m2: "cache_key ''a'' \<in> cache_keys (cache (relay_loop cfg_off sample_env (loop_entry sample_env Map.empty) [(''a'', None)]))"
    unfolding run_a by (simp add: cache_keys_def cache_key_a)
  show ?thesis
    using h1 m1 h2 m2
      first_forwarded_duplicate_dropped [OF h1, of "''a''" None]
      first_forwarded_duplicate_dropped [OF h2, of "''a''" None]
    by (simp add: Let_def)
qed

section \<open>Receive errors\<close>

text \<open>
  C3. Evaluation of the loop on a receive that returns an error (and the empty message):
  line 140 prints the error, and the iteration goes on to fingerprint the empty message,
  insert its key into the cache and publish it.
\<close>

theorem recv_error_message_is_processed:
  "relay_loop cfg_off sample_env (loop_entry sample_env Map.empty)
       [([], Some ''interrupted system call'')] =
     \<lparr>cache = \<lparr>items = [(''811c9dc5'', CacheValue True)], capacity = 1000\<rparr>, clock = 0,
      trace = [Println ''RECV ERROR: interrupted system call'', CacheGet ''811c9dc5'',
               CacheSet ''811c9dc5'', Send []],
      bucket = Map.empty, exited = None\<rparr>"
  by (simp add: relay_iter_miss cache_keys_def loop_entry_def NewLRUCache_def cfg_off_def
        emit_def report_recv_def cache_key_empty cache_Set_def checkCapacity_fits
        cache_bytes_def Size_def sample_env_def cache_size_limit_def)

section \<open>Order of the cache update and the forward\<close>








section \<open>Persistence disabled\<close>

lemma relay_iter_off:
  assumes "\<not> CouchbaseCache cfg"
  shows "bucket (relay_iter cfg ev s r) = bucket s"
    and "exited (relay_iter cfg ev s r) = exited s"
    and "clock (relay_iter cfg ev s r) = clock s"
    and "\<forall>e \<in> set (events_since s (relay_iter cfg ev s r)). \<not> is_BucketSet e \<and> \<not> is_LogFatal e"
proof -
  obtain msg z where r: "r = (msg, z)" by (cases r)
  have nb: "\<forall>e \<in> set (recv_log z). \<not> is_BucketSet e \<and> \<not> is_LogFatal e"
    by (cases z) (simp_all add: recv_log_def)
  have "bucket (relay_iter cfg ev s r) = bucket s \<and> exited (relay_iter cfg ev s r) = exited s
        \<and> clock (relay_iter cfg ev s r) = clock s
        \<and> (\<forall>e \<in> set (events_since s (relay_iter cfg ev s r)). \<not> is_BucketSet e \<and> \<not> is_LogFatal e)"
  proof (cases "cache_key msg \<in> cache_keys (cache s)")
    case True
    then show ?thesis using nb by (simp add: r relay_iter_hit_trace)
  next
    case False
    have "trace (relay_iter cfg ev s r) =
            trace s @ recv_log z @ [CacheGet (cache_key msg), CacheSet (cache_key msg), Send msg]"
      using relay_iter_miss_trace [OF False, of cfg ev z] assms by (auto simp: r)
    then have "events_since s (relay_iter cfg ev s r) =
            recv_log z @ [CacheGet (cache_key msg), CacheSet (cache_key msg), Send msg]"
      by simp
    then show ?thesis
      using nb assms by (simp add: r relay_iter_miss [OF False] emit_def)
  qed
  then show "bucket (relay_iter cfg ev s r) = bucket s"
    and "exited (relay_iter cfg ev s r) = exited s"
    and "clock (relay_iter cfg ev s r) = clock s"
    and "\<forall>e \<in> set (events_since s (relay_iter cfg ev s r)). \<not> is_BucketSet e \<and> \<not> is_LogFatal e"
    by simp_all
qed

lemma events_since_trans:
  assumes "trace s1 = trace s @ es1" "trace s2 = trace s1 @ es2"
  shows "events_since s s2 = events_since s s1 @ events_since s1 s2"
  using assms by (simp add: events_since_def)

lemma relay_loop_off:
  assumes "\<not> CouchbaseCache cfg"
  shows "bucket (relay_loop cfg ev s rs) = bucket s \<and>
         exited (relay_loop cfg ev s rs) = exited s \<and>
         (\<forall>e \<in> set (events_since s (relay_loop cfg ev s rs)). \<not> is_BucketSet e \<and> \<not> is_LogFatal e)"
proof (induction rs arbitrary: s)
  case Nil
  then show ?case by (simp add: events_since_def)
next
  case (Cons r rs)
  show ?case
  proof (cases "exited s")
    case (Some a)
    then show ?thesis by (simp add: events_since_def)
  next
    case None
    let ?s1 = "relay_iter cfg ev s r"
    obtain es1 where es1: "trace ?s1 = trace s @ es1"
      using relay_iter_trace by blast
    obtain es2 where es2: "trace (relay_loop cfg ev ?s1 rs) = trace ?s1 @ es2"
      using relay_loop_trace by blast
    have "events_since s (relay_loop cfg ev ?s1 rs) =
            events_since s ?s1 @ events_since ?s1 (relay_loop cfg ev ?s1 rs)"
      using es1 es2 by (rule events_since_trans)
    then show ?thesis
      using None Cons.IH [of ?s1] relay_iter_off [OF assms, where ev = ev and s = s and r = r] by auto
  qed
qed

lemma relay_iter_forward_any_cfg:
  "forwarded (events_since s (relay_iter cfg ev s r)) = forwarded (events_since s (relay_iter cfg' ev s r))
   \<and> cache (relay_iter cfg ev s r) = cache (relay_iter cfg' ev s r)"
proof -
  obtain msg z where r: "r = (msg, z)" by (cases r)
  show ?thesis
  proof (cases "cache_key msg \<in> cache_keys (cache s)")
    case True
    then show ?thesis by (simp add: r relay_iter_hit_trace)
  next
    case False
    then show ?thesis by (simp add: r relay_iter_novel relay_iter_miss_cache)
  qed
qed

text \<open>
  C8. With \<open>CouchbaseCache\<close> false, a run of the loop on any messages, from any state
  and with any decompressor, decoder and clock, makes no upsert and leaves the bucket
  as it was (and never reaches \<open>log.Fatal\<close>); and in every iteration the messages
  forwarded and the resulting cache are the same as under any other configuration.
\<close>

theorem persistence_disabled_no_writes:
  assumes "CouchbaseCache cfg = False"
  shows "bucket (relay_loop cfg ev s rs) = bucket s \<and>
         (\<forall>e \<in> set (events_since s (relay_loop cfg ev s rs)). \<not> is_BucketSet e) \<and>
         forwarded (events_since s (relay_iter cfg ev s r)) =
           forwarded (events_since s (relay_iter cfg' ev s r)) \<and>
         cache (relay_iter cfg ev s r) = cache (relay_iter cfg' ev s r)"
proof -
  have off: "\<not> CouchbaseCache cfg" using assms by simp
  from relay_loop_off [OF off, where ev = ev and s = s and rs = rs]
    relay_iter_forward_any_cfg [where s = s and cfg = cfg and ev = ev and r = r and cfg' = cfg']
  show ?thesis by blast
qed

lemma run_a_on:
  "relay_loop cfg_on sample_env (loop_entry sample_env Map.empty) [(''a'', None)] =
     \<lparr>cache = \<lparr>items = [(''050c5d7e'', CacheValue True)], capacity = 1000\<rparr>, clock = 2,
      trace = [CacheGet ''050c5d7e'', CacheSet ''050c5d7e'', Send ''a'',
               BucketSet ''10000210-34-history''
                 \<lparr>doc_Region = 10000210, doc_ItemID = 34, doc_InsertTime = 1700000001,
                  doc_UploadKeys = [], doc_ResultType = ''history''\<rparr>],
      bucket = [''10000210-34-history'' \<mapsto>
                 \<lparr>doc_Region = 10000210, doc_ItemID = 34, doc_InsertTime = 1700000001,
                  doc_UploadKeys = [], doc_ResultType = ''history''\<rparr>],
      exited = None\<rparr>"
  by (simp add: relay_iter_miss cache_keys_def loop_entry_def NewLRUCache_def cfg_on_def
        emit_def report_recv_def cache_key_a cache_Set_def checkCapacity_fits
        cache_bytes_def Size_def sample_env_def cache_size_limit_def persist_def ZlibDecode_def
        sample_msg_def sample_rowset_def in_window_def int32_def b_Set_def tick_def mk_doc_def
        doc_key_def Itoa_def decimal.simps digit_char_def)

theorem persistence_disabled_no_writes_witness:
  "CouchbaseCache cfg_off = False \<and>
   bucket (relay_loop cfg_off sample_env (loop_entry sample_env Map.empty) [(''a'', None)]) = Map.empty \<and>
   bucket (relay_loop cfg_on sample_env (loop_entry sample_env Map.empty) [(''a'', None)]) \<noteq> Map.empty"
proof -
  have h: "CouchbaseCache cfg_off = False" by (simp add: cfg_off_def)
  have "bucket (relay_loop cfg_on sample_env (loop_entry sample_env Map.empty) [(''a'', None)]) \<noteq> Map.empty"
    unfolding run_a_on by simp
  with h persistence_disabled_no_writes [OF h, where ev = sample_env
      and s = "loop_entry sample_env Map.empty" and rs = "[(''a'', None)]"]
  show ?thesis by simp
qed

section \<open>Failures on the persistence path\<close>

lemma persist_fatal:
  assumes "ZlibDecode ev msg = (d, Some e)"
  shows "persist ev msg s = (emit (LogFatal e) s)\<lparr>exited := Some 1\<rparr>"
  using assms by (simp add: persist_def)

lemma persist_decoded:
  assumes "ZlibDecode ev msg = (d, None)"
  shows "exited (persist ev msg s) = exited s"
  using assms by (simp add: persist_def Let_def)

text \<open>
  C2, as stated, fails: with persistence enabled, a first message that does not
  decompress ends the process with status 1, and the message received after it is
  never looked at.
\<close>

theorem decode_failure_is_fatal_counterexample:
  "relay_loop cfg_on sample_env (loop_entry sample_env Map.empty) [([], None), (''a'', None)] =
     \<lparr>cache = \<lparr>items = [(''811c9dc5'', CacheValue True)], capacity = 1000\<rparr>, clock = 0,
      trace = [CacheGet ''811c9dc5'', CacheSet ''811c9dc5'', Send [], LogFatal ''unexpected EOF''],
      bucket = Map.empty, exited = Some 1\<rparr>"
  by (simp add: relay_iter_miss cache_keys_def loop_entry_def NewLRUCache_def cfg_on_def
        emit_def report_recv_def cache_key_empty cache_Set_def checkCapacity_fits
        cache_bytes_def Size_def sample_env_def cache_size_limit_def persist_def ZlibDecode_def)

text \<open>
  C2, amended. With persistence enabled, when a message that arrives while the process
  runs is novel and fails to decompress, the iteration has already updated the cache
  and forwarded the message; it then reports the failure through \<open>log.Fatal\<close> and the
  process exits with status 1: nothing is written to the bucket and no later message is
  processed. When decompression succeeds the iteration does not exit, whatever the
  decoder returns.
\<close>

theorem decode_failure_after_forward:
  assumes "CouchbaseCache cfg" and "exited s = None"
    and "cache_key msg \<notin> cache_keys (cache s)"
  shows "(\<forall>d e. ZlibDecode ev msg = (d, Some e) \<longrightarrow>
            events_since s (relay_iter cfg ev s (msg, z)) =
              recv_log z @ [CacheGet (cache_key msg), CacheSet (cache_key msg), Send msg, LogFatal e] \<and>
            exited (relay_iter cfg ev s (msg, z)) = Some 1 \<and>
            bucket (relay_iter cfg ev s (msg, z)) = bucket s \<and>
            relay_loop cfg ev s ((msg, z) # rest) = relay_iter cfg ev s (msg, z))
       \<and> (\<forall>d. ZlibDecode ev msg = (d, None) \<longrightarrow> exited (relay_iter cfg ev s (msg, z)) = None)"
proof (intro conjI allI impI)
  fix d e assume fail: "ZlibDecode ev msg = (d, Some e)"
  have it: "relay_iter cfg ev s (msg, z) =
      (emit (LogFatal e) (emit (Send msg) (emit (CacheSet (cache_key msg))
          (emit (CacheGet (cache_key msg)) (report_recv z s)
             \<lparr>cache := cache_Set (Size ev) (cache s) (cache_key msg) (CacheValue True)\<rparr>))))
        \<lparr>exited := Some 1\<rparr>"
    using assms(1) by (simp add: relay_iter_miss [OF assms(3)] persist_fatal [OF fail])
  show "events_since s (relay_iter cfg ev s (msg, z)) =
          recv_log z @ [CacheGet (cache_key msg), CacheSet (cache_key msg), Send msg, LogFatal e]"
    by (simp add: it emit_def report_recv_trace)
  show ex: "exited (relay_iter cfg ev s (msg, z)) = Some 1"
    by (simp add: it)
  show "bucket (relay_iter cfg ev s (msg, z)) = bucket s"
    by (simp add: it emit_def)
  show "relay_loop cfg ev s ((msg, z) # rest) = relay_iter cfg ev s (msg, z)"
    using assms(2) ex by (simp add: relay_loop_exited)
next
  fix d assume ok: "ZlibDecode ev msg = (d, None)"
  show "exited (relay_iter cfg ev s (msg, z)) = None"
    using assms(1,2)
    by (simp add: relay_iter_miss [OF assms(3)] persist_decoded [OF ok] emit_def)
qed

theorem decode_failure_after_forward_witness:
  "CouchbaseCache cfg_on \<and> exited (loop_entry sample_env Map.empty) = None \<and>
   cache_key [] \<notin> cache_keys (cache (loop_entry sample_env Map.empty)) \<and>
   ZlibDecode sample_env [] = ([], Some ''unexpected EOF'') \<and>
   exited (relay_iter cfg_on sample_env (loop_entry sample_env Map.empty) ([], None)) = Some 1 \<and>
   cache_key ''a'' \<notin> cache_keys (cache (loop_entry sample_env Map.empty)) \<and>
   ZlibDecode sample_env ''a'' = (''a'', None) \<and>
   exited (relay_iter cfg_on sample_env (loop_entry sample_env Map.empty) (''a'', None)) = None"
proof -
  have c: "CouchbaseCache cfg_on" by (simp add: cfg_on_def)
  have a: "exited (loop_entry sample_env Map.empty) = None" by simp
  have m1: "cache_key [] \<notin> cache_keys (cache (loop_entry sample_env Map.empty))"
    by (simp add: cache_keys_def)
  have m2: "cache_key ''a'' \<notin> cache_keys (cache (loop_entry sample_env Map.empty))"
    by (simp add: cache_keys_def)
  have z1: "ZlibDecode sample_env [] = ([], Some ''unexpected EOF'')"
    by (simp add: ZlibDecode_def sample_env_def)
  have z2: "ZlibDecode sample_env ''a'' = (''a'', None)"
    by (simp add: ZlibDecode_def sample_env_def)
  from decode_failure_after_forward [OF c a m1, where ev = sample_env and z = None]
       decode_failure_after_forward [OF c a m2, where ev = sample_env and z = None]
       c a m1 m2 z1 z2
  show ?thesis by simp
qed

section \<open>Capacity of the cache\<close>

lemma cache_Set_new_length:
  assumes "k \<notin> cache_keys c"
    and "Suc (length (items c)) * cache_value_size ev \<le> capacity c"
  shows "length (items (cache_Set (Size ev) c k v)) = Suc (length (items c))"
proof -
  have "filter (\<lambda>e. fst e \<noteq> k) (items c) = items c"
    using assms(1) by (auto simp: cache_keys_def filter_id_conv)
  moreover have "cache_bytes (Size ev) ((k, v) # items c) \<le> capacity c"
    using assms(2) by (simp only: cache_bytes_Size length_Cons)
  ultimately show ?thesis
    by (simp add: cache_Set_def checkCapacity_fits)
qed

text \<open>
  C5. Provided a \<open>CacheValue\<close> occupies at least one byte, in every state the loop
  reaches from its entry state the byte limit of the cache is 1000 times the size of a
  \<open>CacheValue\<close>, every entry reports exactly that size, and the cache holds at most
  1000 entries; and the bound is exact: while fewer than 1000 entries are held, setting
  a key that is not in the cache adds an entry without evicting any.
\<close>

theorem cache_holds_at_most_1000:
  assumes "0 < cache_value_size ev"
  shows "(let c = cache (relay_loop cfg ev (loop_entry ev b) rs) in
          capacity c = 1000 * cache_value_size ev \<and>
          (\<forall>e \<in> set (items c). Size ev (snd e) = cache_value_size ev) \<and>
          length (items c) \<le> 1000 \<and>
          (\<forall>k v. k \<notin> cache_keys c \<and> length (items c) < 1000 \<longrightarrow>
                 length (items (cache_Set (Size ev) c k v)) = Suc (length (items c))))"
proof -
  let ?c = "cache (relay_loop cfg ev (loop_entry ev b) rs)"
  have cap: "capacity ?c = 1000 * cache_value_size ev"
    by (simp add: cache_size_limit_def)
  have "cache_bytes (Size ev) (items (cache (loop_entry ev b))) \<le> capacity (cache (loop_entry ev b))"
    by (simp add: cache_bytes_def)
  then have "cache_bytes (Size ev) (items ?c) \<le> capacity (cache (loop_entry ev b))"
    by (rule relay_loop_bound)
  then have "length (items ?c) * cache_value_size ev \<le> 1000 * cache_value_size ev"
    by (simp add: cache_bytes_Size cache_size_limit_def)
  then have len: "length (items ?c) \<le> 1000"
    using assms by simp
  have grow: "length (items (cache_Set (Size ev) ?c k v)) = Suc (length (items ?c))"
    if "k \<notin> cache_keys ?c" "length (items ?c) < 1000" for k v
  proof (rule cache_Set_new_length [OF that(1)])
    have "Suc (length (items ?c)) \<le> 1000" using that(2) by simp
    then have "Suc (length (items ?c)) * cache_value_size ev \<le> 1000 * cache_value_size ev"
      by (rule mult_le_mono1)
    then show "Suc (length (items ?c)) * cache_value_size ev \<le> capacity ?c"
      by (simp only: cap)
  qed
  show ?thesis
    unfolding Let_def using cap len grow by (simp add: Size_def)
qed

theorem cache_holds_at_most_1000_witness:
  "0 < cache_value_size sample_env \<and>
   capacity (cache (relay_loop cfg_off sample_env (loop_entry sample_env Map.empty) [(''a'', None)])) = 1000 \<and>
   length (items (cache (relay_loop cfg_off sample_env (loop_entry sample_env Map.empty) [(''a'', None)]))) \<le> 1000"
proof -
  have h: "0 < cache_value_size sample_env" by (simp add: sample_env_def)
  have "cache_value_size sample_env = 1" by (simp add: sample_env_def)
  with h cache_holds_at_most_1000 [OF h, where cfg = cfg_off and b = Map.empty and rs = "[(''a'', None)]"]
  show ?thesis by (simp add: Let_def)
qed

section \<open>The freshness window\<close>

lemma in_window_exact:
  assumes "- (2 ^ 31) + 3600 \<le> now" and "now < 2 ^ 31 + 3600"
  shows "in_window now g \<longleftrightarrow> now - 3600 \<le> g"
proof -
  have "sint (int32 now - 3600) = sint (word_of_int (now - 3600) :: 32 word)"
    by (simp add: int32_def)
  also have "\<dots> = signed_take_bit (LENGTH(32) - 1) (now - 3600)"
    by (rule sint_sbintrunc')
  also have "\<dots> = signed_take_bit 31 (now - 3600)"
    by simp
  also have "\<dots> = now - 3600"
    using assms by (intro signed_take_bit_int_eq_self) simp_all
  finally show ?thesis by (simp add: in_window_def)
qed

lemma range_Rowsets_one:
  "range_Rowsets ev m [el] s =
     (if in_window (time_Now_Unix ev (clock s)) (GeneratedAt el)
      then b_Set (doc_key (RegionID el) (TypeID el) (ResultType m))
                 (mk_doc el m (time_Now_Unix ev (Suc (clock s)))) (tick (tick s))
      else tick s)"
  by simp

lemma b_Set_simps [simp]:
  "trace (b_Set k d s) = trace s @ [BucketSet k d]"
  "bucket (b_Set k d s) = (bucket s)(k \<mapsto> d)"
  "clock (b_Set k d s) = clock s"
  by (simp_all add: b_Set_def emit_def)

lemma tick_simps [simp]:
  "trace (tick s) = trace s" "bucket (tick s) = bucket s" "clock (tick s) = Suc (clock s)"
  by (simp_all add: tick_def)

lemma in_window_int32_exact:
  assumes "- (2 ^ 31) + 3600 \<le> now" and "now < 2 ^ 31 + 3600"
    and "- (2 ^ 31) \<le> g" and "g < 2 ^ 31"
  shows "in_window_int32 now g \<longleftrightarrow> now - 3600 \<le> g"
proof -
  have "sint (int32 g) = signed_take_bit (LENGTH(32) - 1) g"
    unfolding int32_def by (rule sint_sbintrunc')
  also have "\<dots> = signed_take_bit 31 g"
    by simp
  also have "\<dots> = g"
    using assms(3,4) by (intro signed_take_bit_int_eq_self) simp_all
  finally have g: "sint (int32 g) = g" .
  have "in_window_int32 now g \<longleftrightarrow> in_window now g"
    by (simp only: in_window_int32_def in_window_def g)
  then show ?thesis
    using in_window_exact [OF assms(1,2)] by simp
qed

text \<open>
  C6. Evaluation of the loop, with persistence enabled, when the clock reads 2147487248
  (2 ^ 31 + 3600 seconds after the epoch, in January 2038) and the message decodes to
  one rowset generated at second 0. \<open>int32\<close> of the clock reading is negative, the
  threshold of line 174 is the least \<open>int32\<close>, and the rowset is upserted although it
  is far more than 3600 seconds old. The outcome is the same under both readings of the
  comparison.
\<close>

theorem stale_rowset_persisted_after_2038:
  "relay_loop cfg_on
     (sample_env\<lparr>time_Now_Unix := (\<lambda>n. 2147487248),
        json_Unmarshal := (\<lambda>d. (sample_msg\<lparr>Rowsets :=
           [\<lparr>GeneratedAt = 0, RegionID = 1, TypeID = 2, Rows = []\<rparr>]\<rparr>, None))\<rparr>)
     (loop_entry sample_env Map.empty) [(''a'', None)] =
     \<lparr>cache = \<lparr>items = [(''050c5d7e'', CacheValue True)], capacity = 1000\<rparr>, clock = 2,
      trace = [CacheGet ''050c5d7e'', CacheSet ''050c5d7e'', Send ''a'',
               BucketSet ''1-2-history''
                 \<lparr>doc_Region = 1, doc_ItemID = 2, doc_InsertTime = - 2147480048,
                  doc_UploadKeys = [], doc_ResultType = ''history''\<rparr>],
      bucket = [''1-2-history'' \<mapsto>
                 \<lparr>doc_Region = 1, doc_ItemID = 2, doc_InsertTime = - 2147480048,
                  doc_UploadKeys = [], doc_ResultType = ''history''\<rparr>],
      exited = None\<rparr>
   \<and> in_window 2147487248 0 \<and> in_window_int32 2147487248 0
   \<and> \<not> (2147487248 - 3600 \<le> (0 :: int))"
  by (simp add: relay_iter_miss cache_keys_def loop_entry_def NewLRUCache_def cfg_on_def
        emit_def report_recv_def cache_key_a cache_Set_def checkCapacity_fits
        cache_bytes_def Size_def sample_env_def cache_size_limit_def persist_def ZlibDecode_def
        sample_msg_def in_window_def in_window_int32_def int32_def b_Set_def tick_def mk_doc_def
        doc_key_def Itoa_def decimal.simps digit_char_def)

section \<open>The document key\<close>

lemma range_Rowsets_writes:
  "BucketSet k d \<in> set (events_since s (range_Rowsets ev m rs s)) \<Longrightarrow>
   \<exists>el \<in> set rs. \<exists>t. k = doc_key (RegionID el) (TypeID el) (ResultType m) \<and> d = mk_doc el m t"
proof (induction rs arbitrary: s)
  case Nil
  then show ?case by (simp add: events_since_def)
next
  case (Cons el rs)
  define s1 where "s1 = range_Rowsets ev m [el] s"
  have split: "range_Rowsets ev m (el # rs) s = range_Rowsets ev m rs s1"
    using range_Rowsets_append [of ev m "[el]" rs s] by (simp add: s1_def)
  obtain es1 where es1: "trace s1 = trace s @ es1"
    unfolding s1_def using range_Rowsets_trace by blast
  obtain es2 where es2: "trace (range_Rowsets ev m rs s1) = trace s1 @ es2"
    using range_Rowsets_trace by blast
  have "events_since s (range_Rowsets ev m rs s1) =
          events_since s s1 @ events_since s1 (range_Rowsets ev m rs s1)"
    using es1 es2 by (rule events_since_trans)
  with Cons.prems consider
      "BucketSet k d \<in> set (events_since s s1)"
    | "BucketSet k d \<in> set (events_since s1 (range_Rowsets ev m rs s1))"
    unfolding split by auto
  then show ?case
  proof cases
    case 1
    then have "k = doc_key (RegionID el) (TypeID el) (ResultType m) \<and>
               d = mk_doc el m (time_Now_Unix ev (Suc (clock s)))"
      unfolding s1_def range_Rowsets_one by (simp add: events_since_def split: if_splits)
    then show ?thesis by auto
  next
    case 2
    from Cons.IH [OF this] show ?thesis by auto
  qed
qed

text \<open>
  C7. Every upsert made for the rowsets of a message \<open>m\<close> is for one of its rowsets, and
  its key is the decimal region id of that rowset, a hyphen, its decimal type id, a
  hyphen, and the result type of \<open>m\<close>; the document carries the same region and type
  ids. For region 10000210, type 34 and result type \<open>history\<close> the key is
  \<open>10000210-34-history\<close>.
\<close>

theorem document_key_format:
  "(BucketSet k d \<in> set (events_since s (range_Rowsets ev m rs s)) \<longrightarrow>
      (\<exists>el \<in> set rs.
         k = Itoa (RegionID el) @ ''-'' @ Itoa (TypeID el) @ ''-'' @ ResultType m \<and>
         doc_Region d = RegionID el \<and> doc_ItemID d = TypeID el \<and>
         doc_ResultType d = ResultType m))
   \<and> doc_key 10000210 34 ''history'' = ''10000210-34-history''"
proof (intro conjI impI)
  assume "BucketSet k d \<in> set (events_since s (range_Rowsets ev m rs s))"
  from range_Rowsets_writes [OF this]
  show "\<exists>el \<in> set rs.
         k = Itoa (RegionID el) @ ''-'' @ Itoa (TypeID el) @ ''-'' @ ResultType m \<and>
         doc_Region d = RegionID el \<and> doc_ItemID d = TypeID el \<and>
         doc_ResultType d = ResultType m"
    by (auto simp: doc_key_def mk_doc_def)
next
  show "doc_key 10000210 34 ''history'' = ''10000210-34-history''"
    by (simp add: doc_key_def Itoa_def decimal.simps digit_char_def)
qed

lemma rowsets_sample:
  "events_since (loop_entry sample_env Map.empty)
     (range_Rowsets sample_env sample_msg [sample_rowset] (loop_entry sample_env Map.empty)) =
   [BucketSet ''10000210-34-history''
      \<lparr>doc_Region = 10000210, doc_ItemID = 34, doc_InsertTime = 1700000001,
       doc_UploadKeys = [], doc_ResultType = ''history''\<rparr>]"
  by (simp add: events_since_def in_window_def int32_def sample_msg_def sample_rowset_def
        sample_env_def mk_doc_def doc_key_def Itoa_def decimal.simps digit_char_def)

theorem document_key_format_witness:
  "BucketSet ''10000210-34-history''
      \<lparr>doc_Region = 10000210, doc_ItemID = 34, doc_InsertTime = 1700000001,
       doc_UploadKeys = [], doc_ResultType = ''history''\<rparr>
     \<in> set (events_since (loop_entry sample_env Map.empty)
         (range_Rowsets sample_env sample_msg [sample_rowset] (loop_entry sample_env Map.empty))) \<and>
   (\<exists>el \<in> set [sample_rowset].
      ''10000210-34-history'' =
        Itoa (RegionID el) @ ''-'' @ Itoa (TypeID el) @ ''-'' @ ResultType sample_msg)"
proof -
  have h: "BucketSet ''10000210-34-history''
      \<lparr>doc_Region = 10000210, doc_ItemID = 34, doc_InsertTime = 1700000001,
       doc_UploadKeys = [], doc_ResultType = ''history''\<rparr>
     \<in> set (events_since (loop_entry sample_env Map.empty)
         (range_Rowsets sample_env sample_msg [sample_rowset] (loop_entry sample_env Map.empty)))"
    unfolding rowsets_sample by simp
  from document_key_format [where k = "''10000210-34-history''" and s = "loop_entry sample_env Map.empty"
      and ev = sample_env and m = sample_msg and rs = "[sample_rowset]"
      and d = "\<lparr>doc_Region = 10000210, doc_ItemID = 34, doc_InsertTime = 1700000001,
       doc_UploadKeys = [], doc_ResultType = ''history''\<rparr>"] h
  show ?thesis by blast
qed

section \<open>The fingerprint\<close>

lemma hex_digit_value_hex_digit: "n < 16 \<Longrightarrow> hex_digit_value (hex_digit n) = n"
proof -
  assume "n < 16"
  then consider "n = 0" | "n = 1" | "n = 2" | "n = 3" | "n = 4" | "n = 5" | "n = 6" | "n = 7"
    | "n = 8" | "n = 9" | "n = 10" | "n = 11" | "n = 12" | "n = 13" | "n = 14" | "n = 15"
    by atomize_elim arith
  then show ?thesis
    by cases (simp_all add: hex_digit_def hex_digit_value_def)
qed

lemma hex_digit_in: "hex_digit n \<in> set ''0123456789abcdef''"
  unfolding hex_digit_def by (rule nth_mem) simp

lemma hex_byte_charset:
  assumes "c \<in> set (hex_byte b)"
  shows "c \<in> set ''0123456789abcdef''"
proof -
  from assms have "c = hex_digit (unat b div 16) \<or> c = hex_digit (unat b mod 16)"
    by (simp add: hex_byte_def)
  then show ?thesis using hex_digit_in by blast
qed

lemma cache_key_length: "length (cache_key msg) = 8"
  by (simp add: cache_key_def checksum_def fnv_Sum_def Sprintf_x_def hex_byte_def)

lemma cache_key_charset: "set (cache_key msg) \<subseteq> set ''0123456789abcdef''"
proof (rule subsetI)
  fix c assume "c \<in> set (cache_key msg)"
  then obtain b where "c \<in> set (hex_byte b)"
    by (auto simp: cache_key_def Sprintf_x_def)
  then show "c \<in> set ''0123456789abcdef''" by (rule hex_byte_charset)
qed

lemma byte_div_16: "unat (b :: 8 word) div 16 < 16"
proof -
  have "unat b < 2 ^ LENGTH(8)" by (rule unsigned_less)
  then show ?thesis by simp
qed

lemma hex_value_append_byte:
  "hex_value (xs @ hex_byte b) = 256 * hex_value xs + unat b"
  using byte_div_16 [of b]
  by (simp add: hex_value_def hex_byte_def hex_digit_value_hex_digit)

lemma hex_value_Sprintf_x_4:
  "hex_value (Sprintf_x [b3, b2, b1, b0]) =
     256 * (256 * (256 * unat b3 + unat b2) + unat b1) + unat b0"
proof -
  have "Sprintf_x [b3, b2, b1, b0] = ((([] @ hex_byte b3) @ hex_byte b2) @ hex_byte b1) @ hex_byte b0"
    by (simp add: Sprintf_x_def)
  then show ?thesis
    by (simp only: hex_value_append_byte) (simp add: hex_value_def)
qed

lemma bytes_of_nat:
  fixes n :: nat
  shows "16777216 * (n div 16777216) + 65536 * (n div 65536 mod 256) +
         256 * (n div 256 mod 256) + n mod 256 = n"
proof -
  have a: "n div 65536 = n div 256 div 256" and b: "n div 16777216 = n div 256 div 256 div 256"
    by (simp_all add: div_mult2_eq [symmetric])
  have "n = 256 * (n div 256) + n mod 256" by simp
  moreover have "n div 256 = 256 * (n div 256 div 256) + n div 256 mod 256" by simp
  moreover have "n div 256 div 256 = 256 * (n div 256 div 256 div 256) + n div 256 div 256 mod 256" by simp
  ultimately show ?thesis unfolding a b by linarith
qed

lemma digest_bytes:
  fixes h :: "32 word"
  shows "256 * (256 * (256 * unat (ucast (drop_bit 24 h) :: 8 word)
                         + unat (ucast (drop_bit 16 h) :: 8 word))
                  + unat (ucast (drop_bit 8 h) :: 8 word))
           + unat (ucast h :: 8 word) = unat h"
proof -
  have lt: "unat h < 2 ^ LENGTH(32)" by (rule unsigned_less)
  have d: "unat (drop_bit n h) = unat h div 2 ^ n" for n
    by (subst unat_drop_bit_eq) (simp add: drop_bit_eq_div)
  have b: "unat (ucast (drop_bit n h) :: 8 word) = unat h div 2 ^ n mod 256" for n
    by (simp only: unsigned_ucast_eq d take_bit_eq_mod) simp
  have b0: "unat (ucast h :: 8 word) = unat h mod 256"
    by (simp add: unsigned_ucast_eq take_bit_eq_mod)
  have top: "unat h div 16777216 mod 256 = unat h div 16777216"
    using lt by simp
  show ?thesis
    unfolding b b0 using bytes_of_nat [of "unat h"] top by simp
qed

lemma hex_value_cache_key: "hex_value (cache_key msg) = unat (fnv_Write offset32 msg)"
  by (simp only: cache_key_def checksum_def fnv_Sum_def hex_value_Sprintf_x_4 digest_bytes)

lemma relay_iter_lookup:
  "filter is_CacheGet (events_since s (relay_iter cfg ev s (msg, z))) = [CacheGet (cache_key msg)]"
proof -
  have nolog: "filter is_CacheGet (recv_log z) = []"
    by (cases z) (simp_all add: recv_log_def)
  show ?thesis
  proof (cases "cache_key msg \<in> cache_keys (cache s)")
    case True
    then show ?thesis by (simp add: relay_iter_hit_trace nolog)
  next
    case False
    obtain post where post:
      "trace (relay_iter cfg ev s (msg, z)) =
         trace s @ recv_log z @ [CacheGet (cache_key msg), CacheSet (cache_key msg), Send msg] @ post"
      "\<forall>e \<in> set post. is_BucketSet e \<or> is_LogFatal e"
      using relay_iter_miss_trace [OF False, of cfg ev z] by blast
    have "filter is_CacheGet post = []"
      using post(2) by (auto simp: filter_empty_conv)
    with post(1) nolog show ?thesis by simp
  qed
qed

text \<open>
  C9. The cache key is a function of the message bytes alone: in every iteration, from
  every state and whatever the receive reported, the one lookup made on the cache is for
  \<open>cache_key msg\<close>. The key has exactly 8 characters, all of them lower-case
  hexadecimal digits, and read as a hexadecimal numeral it is the 32-bit FNV-1 digest
  of the message.
\<close>

theorem fingerprint_is_hex_digest_of_bytes:
  "filter is_CacheGet (events_since s (relay_iter cfg ev s (msg, z))) = [CacheGet (cache_key msg)] \<and>
   length (cache_key msg) = 8 \<and>
   set (cache_key msg) \<subseteq> set ''0123456789abcdef'' \<and>
   hex_value (cache_key msg) = unat (fnv_Write offset32 msg)"
  using relay_iter_lookup cache_key_length cache_key_charset hex_value_cache_key by blast

section \<open>Rowsets that share a document key\<close>

lemma range_Rowsets_fresh:
  assumes "in_window (time_Now_Unix ev (clock (range_Rowsets ev m pre s))) (GeneratedAt el)"
  shows "range_Rowsets ev m (pre @ [el]) s =
           b_Set (doc_key (RegionID el) (TypeID el) (ResultType m))
                 (mk_doc el m (time_Now_Unix ev (Suc (clock (range_Rowsets ev m pre s)))))
                 (tick (tick (range_Rowsets ev m pre s)))"
  using assms by (simp only: range_Rowsets_append range_Rowsets_one if_True)

text \<open>
  C10. The document key is computed from the region id, the type id and the result type
  only. When a message has two rowsets with the same region and type ids, the second
  anywhere after the first, and each is inside the window when it is reached, each is
  upserted when reached, both under the same key, and after the second the bucket holds
  under that key the document of the second: the earlier one has been overwritten.
\<close>

theorem same_key_later_write_wins:
  assumes "RegionID e1 = RegionID e2" and "TypeID e1 = TypeID e2"
    and "in_window (time_Now_Unix ev (clock (range_Rowsets ev m pre s))) (GeneratedAt e1)"
    and "in_window (time_Now_Unix ev (clock (range_Rowsets ev m (pre @ e1 # mid) s))) (GeneratedAt e2)"
  shows "(let key = doc_key (RegionID e1) (TypeID e1) (ResultType m);
              s1 = range_Rowsets ev m pre s;
              s2 = range_Rowsets ev m (pre @ [e1]) s;
              s3 = range_Rowsets ev m (pre @ e1 # mid) s;
              s4 = range_Rowsets ev m (pre @ e1 # mid @ [e2]) s;
              d1 = mk_doc e1 m (time_Now_Unix ev (Suc (clock s1)));
              d2 = mk_doc e2 m (time_Now_Unix ev (Suc (clock s3)))
          in events_since s1 s2 = [BucketSet key d1] \<and> bucket s2 key = Some d1 \<and>
             events_since s3 s4 = [BucketSet key d2] \<and> bucket s4 key = Some d2 \<and>
             (\<forall>k. k \<noteq> key \<longrightarrow> bucket s4 k = bucket s3 k))"
proof -
  have a: "pre @ e1 # mid @ [e2] = (pre @ e1 # mid) @ [e2]" by simp
  show ?thesis
    unfolding Let_def a
    by (simp only: range_Rowsets_fresh [OF assms(3)] range_Rowsets_fresh [OF assms(4)])
       (simp add: events_since_def assms(1,2))
qed

theorem same_key_later_write_wins_witness:
  "RegionID sample_rowset = RegionID (sample_rowset\<lparr>GeneratedAt := 1700000000\<rparr>) \<and>
   TypeID sample_rowset = TypeID (sample_rowset\<lparr>GeneratedAt := 1700000000\<rparr>) \<and>
   bucket (range_Rowsets sample_env sample_msg
             ([] @ sample_rowset # [] @ [sample_rowset\<lparr>GeneratedAt := 1700000000\<rparr>])
             (loop_entry sample_env Map.empty)) ''10000210-34-history'' =
     Some \<lparr>doc_Region = 10000210, doc_ItemID = 34, doc_InsertTime = 1700000003,
           doc_UploadKeys = [], doc_ResultType = ''history''\<rparr>"
proof -
  let ?e2 = "sample_rowset\<lparr>GeneratedAt := 1700000000\<rparr>"
  let ?s = "loop_entry sample_env Map.empty"
  have r: "RegionID sample_rowset = RegionID ?e2" and t: "TypeID sample_rowset = TypeID ?e2"
    by simp_all
  have f1: "in_window (time_Now_Unix sample_env (clock (range_Rowsets sample_env sample_msg [] ?s)))
              (GeneratedAt sample_rowset)"
    by (simp add: in_window_def int32_def sample_env_def sample_rowset_def)
  have s3: "clock (range_Rowsets sample_env sample_msg ([] @ sample_rowset # []) ?s) = 2"
    using f1 by simp
  have f2: "in_window (time_Now_Unix sample_env (clock (range_Rowsets sample_env sample_msg ([] @ sample_rowset # []) ?s)))
              (GeneratedAt ?e2)"
    unfolding s3 by (simp add: in_window_def int32_def sample_env_def)
  have k: "doc_key (RegionID sample_rowset) (TypeID sample_rowset) (ResultType sample_msg) = ''10000210-34-history''"
    by (simp add: sample_rowset_def sample_msg_def doc_key_def Itoa_def decimal.simps digit_char_def)
  have d: "mk_doc ?e2 sample_msg (time_Now_Unix sample_env (Suc 2)) =
      \<lparr>doc_Region = 10000210, doc_ItemID = 34, doc_InsertTime = 1700000003,
           doc_UploadKeys = [], doc_ResultType = ''history''\<rparr>"
    by (simp add: mk_doc_def sample_rowset_def sample_msg_def sample_env_def int32_def)
  from same_key_later_write_wins [OF r t f1 f2]
  have "bucket (range_Rowsets sample_env sample_msg
             ([] @ sample_rowset # [] @ [?e2]) ?s)
          (doc_key (RegionID sample_rowset) (TypeID sample_rowset) (ResultType sample_msg)) =
        Some (mk_doc ?e2 sample_msg (time_Now_Unix sample_env
               (Suc (clock (range_Rowsets sample_env sample_msg ([] @ sample_rowset # []) ?s)))))"
    unfolding Let_def by blast
  then show ?thesis
    unfolding k s3 d using r t by simp
qed

end
